theory Spec2Isabelle
  imports Main
begin

section \<open>Ordering results\<close>

text \<open>
  Modelled from the spec: the declaration of the type \<open>Ord\<close> and of its constants
  \<open>Less\<close>, \<open>Equal\<close> and \<open>Greater\<close> is not part of \<^verbatim>\<open>zip.go\<close>. The spec gives three
  distinct values; \<^verbatim>\<open>zip.go\<close> prints a comparison result with \<^verbatim>\<open>%d\<close>, so the type is
  an integer type and a comparator can return a fourth value. \<open>Other k\<close> stands for
  such a value, \<open>k\<close> being its number.
\<close>

datatype Ord = Less | Equal | Greater | Other int

section \<open>The Zipper interface\<close>

text \<open>
  The interface \<^verbatim>\<open>Zipper\<close> of \<^verbatim>\<open>zip.go\<close>. Its methods are the caller's code: they
  read and change whatever the caller's adapter owns. That is the state \<open>'s\<close>, which
  every method receives and hands back. A method is taken to return; a method that
  panics or loops on its own is outside this model. Go's \<^verbatim>\<open>int\<close> is modelled by
  \<open>int\<close>: a cursor is incremented only while it is below a length that is itself a Go
  \<^verbatim>\<open>int\<close>, so no increment of \<^verbatim>\<open>ZipWithGaps\<close> overflows.
\<close>

record 's Zipper =
  Compare :: "int \<Rightarrow> int \<Rightarrow> 's \<Rightarrow> Ord \<times> 's"
  LenLeft :: "'s \<Rightarrow> int \<times> 's"
  LenRight :: "'s \<Rightarrow> int \<times> 's"
  AddLeft :: "int \<Rightarrow> 's \<Rightarrow> 's"
  AddRight :: "int \<Rightarrow> 's \<Rightarrow> 's"
  AddBoth :: "int \<Rightarrow> int \<Rightarrow> 's \<Rightarrow> 's"

section \<open>Calls, panics and the world of a run\<close>

text \<open>One method call made by \<^verbatim>\<open>ZipWithGaps\<close> on its Zipper, with its arguments.\<close>

datatype call =
    LenLeftCall
  | LenRightCall
  | CompareCall int int
  | AddLeftCall int
  | AddRightCall int
  | AddBothCall int int

text \<open>The two \<^verbatim>\<open>panic\<close> statements of \<^verbatim>\<open>ZipWithGaps\<close>, with the values their messages print.\<close>

datatype panic = NegativeLengths int int | BadCompare Ord

text \<open>
  What a run has done so far: the method calls in the order they were made, the number
  of completed iterations of the \<^verbatim>\<open>for\<close> loop, and the state of the caller's adapter.
  The first two are bookkeeping of the model; the code keeps neither.
\<close>

record 's world =
  calls :: "call list"
  iters :: nat
  zstate :: "'s"

definition do_LenLeft :: "'s Zipper \<Rightarrow> 's world \<Rightarrow> int \<times> 's world" where
  "do_LenLeft z w =
     (case LenLeft z (zstate w) of
        (n, s') \<Rightarrow> (n, w\<lparr>calls := calls w @ [LenLeftCall], zstate := s'\<rparr>))"

definition do_LenRight :: "'s Zipper \<Rightarrow> 's world \<Rightarrow> int \<times> 's world" where
  "do_LenRight z w =
     (case LenRight z (zstate w) of
        (n, s') \<Rightarrow> (n, w\<lparr>calls := calls w @ [LenRightCall], zstate := s'\<rparr>))"

definition do_Compare :: "'s Zipper \<Rightarrow> int \<Rightarrow> int \<Rightarrow> 's world \<Rightarrow> Ord \<times> 's world" where
  "do_Compare z i j w =
     (case Compare z i j (zstate w) of
        (c, s') \<Rightarrow> (c, w\<lparr>calls := calls w @ [CompareCall i j], zstate := s'\<rparr>))"

definition do_AddLeft :: "'s Zipper \<Rightarrow> int \<Rightarrow> 's world \<Rightarrow> 's world" where
  "do_AddLeft z i w =
     w\<lparr>calls := calls w @ [AddLeftCall i], zstate := AddLeft z i (zstate w)\<rparr>"

definition do_AddRight :: "'s Zipper \<Rightarrow> int \<Rightarrow> 's world \<Rightarrow> 's world" where
  "do_AddRight z j w =
     w\<lparr>calls := calls w @ [AddRightCall j], zstate := AddRight z j (zstate w)\<rparr>"

definition do_AddBoth :: "'s Zipper \<Rightarrow> int \<Rightarrow> int \<Rightarrow> 's world \<Rightarrow> 's world" where
  "do_AddBoth z i j w =
     w\<lparr>calls := calls w @ [AddBothCall i j], zstate := AddBoth z i j (zstate w)\<rparr>"

definition next_iter :: "'s world \<Rightarrow> 's world" where
  "next_iter w = w\<lparr>iters := Suc (iters w)\<rparr>"

section \<open>ZipWithGaps\<close>

text \<open>
  The body of the \<^verbatim>\<open>for\<close> loop (lines 43 to 67): the outer \<^verbatim>\<open>switch\<close> with its cases
  in the source's order, then the inner \<^verbatim>\<open>switch\<close> on the comparison result, again in
  the source's order (\<open>Less\<close>, \<open>Greater\<close>, \<open>Equal\<close>, default). One pass through the body
  yields the cursors for the next iteration, or panics.
\<close>

datatype 's iteration = Next int int "'s world" | Panic panic "'s world"

definition body :: "'s Zipper \<Rightarrow> int \<Rightarrow> int \<Rightarrow> int \<Rightarrow> int \<Rightarrow> 's world \<Rightarrow> 's iteration" where
  "body z maxLeft maxRight i j w =
     (if i \<ge> maxLeft then Next i (j + 1) (do_AddRight z j w)
      else if j \<ge> maxRight then Next (i + 1) j (do_AddLeft z i w)
      else
        (case do_Compare z i j w of
           (c, w') \<Rightarrow>
             if c = Less then Next (i + 1) j (do_AddLeft z i w')
             else if c = Greater then Next i (j + 1) (do_AddRight z j w')
             else if c = Equal then Next (i + 1) (j + 1) (do_AddBoth z i j w')
             else Panic (BadCompare c) w'))"

text \<open>How a call of \<^verbatim>\<open>ZipWithGaps\<close> ends: it returns, with the final cursors, or it panics.\<close>

datatype 's result = Returned int int "'s world" | Panicked panic "'s world"

fun world_of :: "'s result \<Rightarrow> 's world" where
  "world_of (Returned i j w) = w"
| "world_of (Panicked p w) = w"

fun returned :: "'s result \<Rightarrow> bool" where
  "returned (Returned i j w) = True"
| "returned (Panicked p w) = False"

text \<open>The \<^verbatim>\<open>for\<close> loop of line 42.\<close>

function loop :: "'s Zipper \<Rightarrow> int \<Rightarrow> int \<Rightarrow> int \<Rightarrow> int \<Rightarrow> 's world \<Rightarrow> 's result" where
  "loop z maxLeft maxRight i j w =
     (if i < maxLeft \<or> j < maxRight then
        (case body z maxLeft maxRight i j w of
           Next i' j' w' \<Rightarrow> loop z maxLeft maxRight i' j' (next_iter w')
         | Panic p w' \<Rightarrow> Panicked p w')
      else Returned i j w)"
  by pat_completeness auto
termination
  by (relation "measure (\<lambda>(z, maxLeft, maxRight, i, j, w). nat (maxLeft - i) + nat (maxRight - j))")
     (auto simp: body_def split: if_splits prod.splits)

declare loop.simps [simp del]

text \<open>
  \<^verbatim>\<open>ZipWithGaps\<close> (lines 35 to 69). Go evaluates the two calls of line 37 from left to
  right.
\<close>

definition ZipWithGaps :: "'s Zipper \<Rightarrow> 's \<Rightarrow> 's result" where
  "ZipWithGaps z s =
     (case do_LenLeft z \<lparr>calls = [], iters = 0, zstate = s\<rparr> of
        (maxLeft, w1) \<Rightarrow>
          (case do_LenRight z w1 of
             (maxRight, w2) \<Rightarrow>
               if maxLeft < 0 \<or> maxRight < 0
               then Panicked (NegativeLengths maxLeft maxRight) w2
               else loop z maxLeft maxRight 0 0 w2))"

section \<open>Zip\<close>

text \<open>
  \<^verbatim>\<open>alwaysEqualZipper\<close> embeds a Zipper and replaces its \<^verbatim>\<open>Compare\<close> by a method that
  returns \<open>Equal\<close> and does not call the embedded one.
\<close>

definition alwaysEqualZipper :: "'s Zipper \<Rightarrow> 's Zipper" where
  "alwaysEqualZipper z = z\<lparr>Compare := \<lambda>i j s. (Equal, s)\<rparr>"

definition Zip :: "'s Zipper \<Rightarrow> 's \<Rightarrow> 's result" where
  "Zip z s = ZipWithGaps (alwaysEqualZipper z) s"

section \<open>Observing a run\<close>

text \<open>The append calls among the calls of a run, in the order they were made.\<close>

fun is_append :: "call \<Rightarrow> bool" where
  "is_append (AddLeftCall i) = True"
| "is_append (AddRightCall j) = True"
| "is_append (AddBothCall i j) = True"
| "is_append c = False"

definition appends :: "call list \<Rightarrow> call list" where
  "appends cs = filter is_append cs"

text \<open>
  The left indices handed to \<^verbatim>\<open>AddLeft\<close> and \<^verbatim>\<open>AddBoth\<close>, and the right indices handed
  to \<^verbatim>\<open>AddRight\<close> and \<^verbatim>\<open>AddBoth\<close>, in the order of the calls.
\<close>

fun left_index :: "call \<Rightarrow> int list" where
  "left_index (AddLeftCall i) = [i]"
| "left_index (AddBothCall i j) = [i]"
| "left_index c = []"

fun right_index :: "call \<Rightarrow> int list" where
  "right_index (AddRightCall j) = [j]"
| "right_index (AddBothCall i j) = [j]"
| "right_index c = []"

definition left_indices :: "call list \<Rightarrow> int list" where
  "left_indices cs = concat (map left_index cs)"

definition right_indices :: "call list \<Rightarrow> int list" where
  "right_indices cs = concat (map right_index cs)"

text \<open>A comparison result is valid when it is one of the three constants.\<close>

definition valid_ord :: "Ord \<Rightarrow> bool" where
  "valid_ord c = (c = Less \<or> c = Equal \<or> c = Greater)"

text \<open>
  The loop invariant of a run whose comparator returns valid results only: the cursors
  are within the lengths, the indices appended so far are those below the cursors, and
  every completed iteration has made one append call.
\<close>

definition valid_inv :: "int \<Rightarrow> int \<Rightarrow> int \<Rightarrow> int \<Rightarrow> 's world \<Rightarrow> bool" where
  "valid_inv m n i j w =
     (0 \<le> i \<and> i \<le> m \<and> 0 \<le> j \<and> j \<le> n \<and>
      left_indices (calls w) = [0..i - 1] \<and> right_indices (calls w) = [0..j - 1] \<and>
      iters w = length (appends (calls w)) \<and>
      i \<le> int (iters w) \<and> j \<le> int (iters w) \<and> int (iters w) \<le> i + j)"

text \<open>
  Whether the indices of a call lie within lengths \<open>m\<close> and \<open>n\<close>. The two length
  queries take no index.
\<close>

fun in_range :: "int \<Rightarrow> int \<Rightarrow> call \<Rightarrow> bool" where
  "in_range m n LenLeftCall = True"
| "in_range m n LenRightCall = True"
| "in_range m n (CompareCall i j) = (0 \<le> i \<and> i < m \<and> 0 \<le> j \<and> j < n)"
| "in_range m n (AddLeftCall i) = (0 \<le> i \<and> i < m)"
| "in_range m n (AddRightCall j) = (0 \<le> j \<and> j < n)"
| "in_range m n (AddBothCall i j) = (0 \<le> i \<and> i < m \<and> 0 \<le> j \<and> j < n)"

text \<open>The two length queries.\<close>

fun is_len :: "call \<Rightarrow> bool" where
  "is_len LenLeftCall = True"
| "is_len LenRightCall = True"
| "is_len c = False"

text \<open>
  The loop invariant of any run: the cursors are not negative, the log starts with the
  two length queries, and every later call is within the lengths and is no length
  query.
\<close>

definition range_inv :: "int \<Rightarrow> int \<Rightarrow> int \<Rightarrow> int \<Rightarrow> 's world \<Rightarrow> bool" where
  "range_inv m n i j w =
     (0 \<le> i \<and> 0 \<le> j \<and>
      (\<exists>rest. calls w = LenLeftCall # LenRightCall # rest \<and>
         list_all (in_range m n) rest \<and> filter is_len rest = []))"

text \<open>
  What a logged call does to the adapter's state when it is made on the Zipper \<open>z\<close>, and
  the state after making a list of calls in order. A run whose final state is the replay
  of its log has made every logged call on the adapter, with the logged indices, and no
  other.
\<close>

fun replay_call :: "'s Zipper \<Rightarrow> call \<Rightarrow> 's \<Rightarrow> 's" where
  "replay_call z LenLeftCall s = snd (LenLeft z s)"
| "replay_call z LenRightCall s = snd (LenRight z s)"
| "replay_call z (CompareCall i j) s = snd (Compare z i j s)"
| "replay_call z (AddLeftCall i) s = AddLeft z i s"
| "replay_call z (AddRightCall j) s = AddRight z j s"
| "replay_call z (AddBothCall i j) s = AddBoth z i j s"

definition replay :: "'s Zipper \<Rightarrow> call list \<Rightarrow> 's \<Rightarrow> 's" where
  "replay z cs s = fold (replay_call z) cs s"

text \<open>The loop invariant that ties the adapter's state to the log.\<close>

definition replay_inv :: "'s Zipper \<Rightarrow> 's \<Rightarrow> 's world \<Rightarrow> bool" where
  "replay_inv z s w = (zstate w = replay z (calls w) s)"

section \<open>A Zipper over two integer slices\<close>

text \<open>
  An adapter as a caller writes it: two slices of integers, compared by their numeric
  order, and an output slice that records what was appended. It serves as the concrete
  input of the examples below.
\<close>

datatype entry = OnlyLeft int | OnlyRight int | Both int int

definition numeric_Compare :: "int \<Rightarrow> int \<Rightarrow> Ord" where
  "numeric_Compare a b = (if a < b then Less else if a > b then Greater else Equal)"

definition slices_zipper :: "int list \<Rightarrow> int list \<Rightarrow> entry list Zipper" where
  "slices_zipper left right =
     \<lparr>Compare = \<lambda>i j out. (numeric_Compare (left ! nat i) (right ! nat j), out),
      LenLeft = \<lambda>out. (int (length left), out),
      LenRight = \<lambda>out. (int (length right), out),
      AddLeft = \<lambda>i out. out @ [OnlyLeft (left ! nat i)],
      AddRight = \<lambda>j out. out @ [OnlyRight (right ! nat j)],
      AddBoth = \<lambda>i j out. out @ [Both (left ! nat i) (right ! nat j)]\<rparr>"

text \<open>
  The same adapter with a broken comparator: at the pair \<open>(1, 1)\<close> it returns a value
  that is none of the three constants.
\<close>

definition malformed_zipper :: "entry list Zipper" where
  "malformed_zipper =
     (slices_zipper [1, 3, 5] [2, 3, 4])
       \<lparr>Compare := \<lambda>i j out.
          (if i = 1 \<and> j = 1 then Other 7 else numeric_Compare ([1, 3, 5] ! nat i) ([2, 3, 4] ! nat j),
           out)\<rparr>"


section \<open>What the spec says of Zip\<close>

text \<open>
  The append calls the spec gives for \<^verbatim>\<open>Zip\<close> on lengths \<open>m\<close> and \<open>n\<close>, written from
  its words and not from the code: \<^verbatim>\<open>AddBoth(i,i)\<close> for \<open>i\<close> from 0 up to but excluding
  \<open>min m n\<close>, then the tail of the longer side, one index at a time, by \<^verbatim>\<open>AddLeft\<close> if
  \<open>m > n\<close> and by \<^verbatim>\<open>AddRight\<close> if \<open>n > m\<close>.
\<close>

definition Zip_spec_tail :: "int \<Rightarrow> int \<Rightarrow> call list" where
  "Zip_spec_tail m n =
     (if m > n then map AddLeftCall [n..m - 1] else map AddRightCall [m..n - 1])"

definition Zip_spec_appends :: "int \<Rightarrow> int \<Rightarrow> call list" where
  "Zip_spec_appends m n = map (\<lambda>i. AddBothCall i i) [0..min m n - 1] @ Zip_spec_tail m n"

section \<open>Unfolding the loop\<close>

lemma loop_done:
  "\<not> (i < maxLeft \<or> j < maxRight) \<Longrightarrow> loop z maxLeft maxRight i j w = Returned i j w"
  by (simp add: loop.simps)

lemma loop_step:
  "i < maxLeft \<or> j < maxRight \<Longrightarrow> body z maxLeft maxRight i j w = Next i' j' w' \<Longrightarrow>
   loop z maxLeft maxRight i j w = loop z maxLeft maxRight i' j' (next_iter w')"
  by (simp add: loop.simps)

lemma loop_panic:
  "i < maxLeft \<or> j < maxRight \<Longrightarrow> body z maxLeft maxRight i j w = Panic p w' \<Longrightarrow>
   loop z maxLeft maxRight i j w = Panicked p w'"
  by (simp add: loop.simps)

lemma loop_invariant:
  assumes init: "I i j w"
    and step: "\<And>i j w i' j' w'. I i j w \<Longrightarrow> i < maxLeft \<or> j < maxRight \<Longrightarrow>
                 body z maxLeft maxRight i j w = Next i' j' w' \<Longrightarrow> I i' j' (next_iter w')"
    and panic: "\<And>i j w p w'. I i j w \<Longrightarrow> i < maxLeft \<or> j < maxRight \<Longrightarrow>
                 body z maxLeft maxRight i j w = Panic p w' \<Longrightarrow> Q (Panicked p w')"
    and fin: "\<And>i j w. I i j w \<Longrightarrow> \<not> (i < maxLeft \<or> j < maxRight) \<Longrightarrow> Q (Returned i j w)"
  shows "Q (loop z maxLeft maxRight i j w)"
  using init step panic fin
proof (induction z maxLeft maxRight i j w rule: loop.induct)
  case (1 z maxLeft maxRight i j w)
  note inv = "1.prems"(1) and st = "1.prems"(2) and pa = "1.prems"(3) and fi = "1.prems"(4)
  show ?case
  proof (cases "i < maxLeft \<or> j < maxRight")
    case False
    with inv show ?thesis by (simp add: loop_done fi)
  next
    case True
    show ?thesis
    proof (cases "body z maxLeft maxRight i j w")
      case (Next i' j' w')
      have "I i' j' (next_iter w')" using st [OF inv True Next] .
      then have "Q (loop z maxLeft maxRight i' j' (next_iter w'))"
        using "1.IH" [OF True Next] st pa fi by blast
      then show ?thesis by (simp add: loop_step [OF True Next])
    next
      case (Panic p w')
      then show ?thesis using pa [OF inv True Panic] by (simp add: loop_panic [OF True Panic])
    qed
  qed
qed

section \<open>Observations of an extended call list\<close>

lemma left_indices_simps [simp]:
  "left_indices [] = []"
  "left_indices (c # cs) = left_index c @ left_indices cs"
  "left_indices (cs @ ds) = left_indices cs @ left_indices ds"
  by (simp_all add: left_indices_def)

lemma right_indices_simps [simp]:
  "right_indices [] = []"
  "right_indices (c # cs) = right_index c @ right_indices cs"
  "right_indices (cs @ ds) = right_indices cs @ right_indices ds"
  by (simp_all add: right_indices_def)

lemma appends_simps [simp]:
  "appends [] = []"
  "appends (c # cs) = (if is_append c then c # appends cs else appends cs)"
  "appends (cs @ ds) = appends cs @ appends ds"
  by (simp_all add: appends_def)

lemma upto_snoc: "i \<le> k \<Longrightarrow> [i..k - 1] @ [k] = [i..k]"
  by (simp add: upto_rec2)

lemma appends_map_Add [simp]:
  "appends (map AddLeftCall ks) = map AddLeftCall ks"
  "appends (map AddRightCall ks) = map AddRightCall ks"
  by (induction ks) simp_all

text \<open>With lengths that are not negative, a call is the loop started after the two queries.\<close>

lemma ZipWithGaps_loop:
  assumes "LenLeft z s = (m, s1)" and "LenRight z s1 = (n, s2)" and "0 \<le> m" and "0 \<le> n"
  shows "ZipWithGaps z s =
           loop z m n 0 0 \<lparr>calls = [LenLeftCall, LenRightCall], iters = 0, zstate = s2\<rparr>"
  using assms by (simp add: ZipWithGaps_def do_LenLeft_def do_LenRight_def)

section \<open>The adapter's state is the replay of the log\<close>

lemma replay_simps [simp]:
  "replay z [] s = s"
  "replay z (c # cs) s = replay z cs (replay_call z c s)"
  "replay z (cs @ ds) s = replay z ds (replay z cs s)"
  by (simp_all add: replay_def)

lemma replay_inv_step:
  assumes inv: "replay_inv z s w"
    and b: "body z m n i j w = Next i' j' w'"
  shows "replay_inv z s (next_iter w')"
proof -
  obtain c s' where cmp: "Compare z i j (zstate w) = (c, s')" by (cases "Compare z i j (zstate w)")
  with inv b show ?thesis
    by (auto simp: replay_inv_def body_def do_Compare_def do_AddLeft_def do_AddRight_def
          do_AddBoth_def next_iter_def split: if_splits)
qed

lemma replay_inv_panic:
  assumes inv: "replay_inv z s w"
    and b: "body z m n i j w = Panic p w'"
  shows "replay_inv z s w'"
proof -
  obtain c s' where cmp: "Compare z i j (zstate w) = (c, s')" by (cases "Compare z i j (zstate w)")
  with inv b show ?thesis
    by (auto simp: replay_inv_def body_def do_Compare_def split: if_splits)
qed

lemma loop_replay:
  assumes inv: "replay_inv z s w"
  shows "replay_inv z s (world_of (loop z m n i j w))"
proof (rule loop_invariant [where I = "\<lambda>i j. replay_inv z s"
      and Q = "\<lambda>r. replay_inv z s (world_of r)"])
  show "replay_inv z s w" by (rule inv)
next
  fix i j w i' j' w'
  assume "replay_inv z s w" "body z m n i j w = Next i' j' w'"
  then show "replay_inv z s (next_iter w')" by (rule replay_inv_step)
next
  fix i j w p w'
  assume "replay_inv z s w" "body z m n i j w = Panic p w'"
  then have "replay_inv z s w'" by (rule replay_inv_panic)
  then show "replay_inv z s (world_of (Panicked p w'))" by simp
next
  fix i j w
  assume "replay_inv z s w"
  then show "replay_inv z s (world_of (Returned i j w))" by simp
qed

text \<open>
  In every run, returning or panicking, the adapter's final state is the result of making
  the logged calls on it, in order, from the state the run started in.
\<close>

lemma ZipWithGaps_replay:
  "zstate (world_of (ZipWithGaps z s)) = replay z (calls (world_of (ZipWithGaps z s))) s"
proof -
  obtain m s1 where l: "LenLeft z s = (m, s1)" by (cases "LenLeft z s")
  obtain n s2 where r: "LenRight z s1 = (n, s2)" by (cases "LenRight z s1")
  have i: "replay_inv z s \<lparr>calls = [LenLeftCall, LenRightCall], iters = 0, zstate = s2\<rparr>"
    using l r by (simp add: replay_inv_def)
  show ?thesis
  proof (cases "m < 0 \<or> n < 0")
    case True
    with l r show ?thesis by (simp add: ZipWithGaps_def do_LenLeft_def do_LenRight_def)
  next
    case False
    then have nn: "0 \<le> m" "0 \<le> n" by simp_all
    from loop_replay [OF i, of m n 0 0] show ?thesis
      by (simp add: ZipWithGaps_loop [OF l r nn] replay_inv_def)
  qed
qed

text \<open>
  On the wrapper of \<^verbatim>\<open>Zip\<close> a comparison leaves the state alone, so after the length
  queries only the append calls act on the embedded Zipper.
\<close>

lemma replay_alwaysEqual:
  "filter is_len cs = [] \<Longrightarrow> replay (alwaysEqualZipper z) cs t = replay z (appends cs) t"
proof (induction cs arbitrary: t)
  case Nil
  then show ?case by simp
next
  case (Cons c cs)
  then show ?case by (cases c) (simp_all add: alwaysEqualZipper_def split: if_splits)
qed

section \<open>One iteration with both cursors in range\<close>

text \<open>
  Claim C1. Whenever both cursors are in range (\<open>i < maxLeft\<close> and \<open>j < maxRight\<close>), the
  iteration calls \<^verbatim>\<open>Compare(i, j)\<close> and dispatches on its result \<open>c\<close>: \<open>Less\<close> makes
  exactly one call \<^verbatim>\<open>AddLeft(i)\<close> and the loop goes on with \<open>i + 1\<close> and \<open>j\<close>; \<open>Greater\<close>
  makes exactly one call \<^verbatim>\<open>AddRight(j)\<close> and the loop goes on with \<open>i\<close> and \<open>j + 1\<close>;
  \<open>Equal\<close> makes exactly one call \<^verbatim>\<open>AddBoth(i, j)\<close> and the loop goes on with \<open>i + 1\<close>
  and \<open>j + 1\<close>. The log of calls grows by the comparison and that one append, and by
  nothing else.
\<close>

theorem ZipWithGaps_dispatch:
  assumes "i < maxLeft" and "j < maxRight" and "Compare z i j (zstate w) = (c, s')"
  shows "(c = Less \<longrightarrow>
            (let w' = w\<lparr>calls := calls w @ [CompareCall i j, AddLeftCall i], zstate := AddLeft z i s'\<rparr>
             in body z maxLeft maxRight i j w = Next (i + 1) j w'
              \<and> loop z maxLeft maxRight i j w = loop z maxLeft maxRight (i + 1) j (next_iter w')))
       \<and> (c = Greater \<longrightarrow>
            (let w' = w\<lparr>calls := calls w @ [CompareCall i j, AddRightCall j], zstate := AddRight z j s'\<rparr>
             in body z maxLeft maxRight i j w = Next i (j + 1) w'
              \<and> loop z maxLeft maxRight i j w = loop z maxLeft maxRight i (j + 1) (next_iter w')))
       \<and> (c = Equal \<longrightarrow>
            (let w' = w\<lparr>calls := calls w @ [CompareCall i j, AddBothCall i j], zstate := AddBoth z i j s'\<rparr>
             in body z maxLeft maxRight i j w = Next (i + 1) (j + 1) w'
              \<and> loop z maxLeft maxRight i j w = loop z maxLeft maxRight (i + 1) (j + 1) (next_iter w')))"
proof -
  have cond: "i < maxLeft \<or> j < maxRight" using assms(1) by simp
  have b: "body z maxLeft maxRight i j w =
      (if c = Less then Next (i + 1) j (w\<lparr>calls := calls w @ [CompareCall i j, AddLeftCall i], zstate := AddLeft z i s'\<rparr>)
       else if c = Greater then Next i (j + 1) (w\<lparr>calls := calls w @ [CompareCall i j, AddRightCall j], zstate := AddRight z j s'\<rparr>)
       else if c = Equal then Next (i + 1) (j + 1) (w\<lparr>calls := calls w @ [CompareCall i j, AddBothCall i j], zstate := AddBoth z i j s'\<rparr>)
       else Panic (BadCompare c) (w\<lparr>calls := calls w @ [CompareCall i j], zstate := s'\<rparr>))"
    using assms by (simp add: body_def do_Compare_def do_AddLeft_def do_AddRight_def do_AddBoth_def)
  show ?thesis
    using b loop_step [OF cond, where z = z and w = w and i' = "i + 1" and j' = j]
      loop_step [OF cond, where z = z and w = w and i' = i and j' = "j + 1"]
      loop_step [OF cond, where z = z and w = w and i' = "i + 1" and j' = "j + 1"]
    by (simp add: Let_def)
qed

theorem ZipWithGaps_dispatch_witness:
  "body (slices_zipper [1, 3, 5] [2, 3, 4]) 3 3 0 0
      \<lparr>calls = [LenLeftCall, LenRightCall], iters = 0, zstate = []\<rparr> =
     Next 1 0 \<lparr>calls = [LenLeftCall, LenRightCall, CompareCall 0 0, AddLeftCall 0], iters = 0,
               zstate = [OnlyLeft 1]\<rparr>
   \<and> body (slices_zipper [1, 3, 5] [2, 3, 4]) 3 3 1 0
      \<lparr>calls = [], iters = 1, zstate = [OnlyLeft 1]\<rparr> =
     Next 1 1 \<lparr>calls = [CompareCall 1 0, AddRightCall 0], iters = 1,
               zstate = [OnlyLeft 1, OnlyRight 2]\<rparr>
   \<and> body (slices_zipper [1, 3, 5] [2, 3, 4]) 3 3 1 1
      \<lparr>calls = [], iters = 2, zstate = []\<rparr> =
     Next 2 2 \<lparr>calls = [CompareCall 1 1, AddBothCall 1 1], iters = 2, zstate = [Both 3 3]\<rparr>"
proof -
  let ?z = "slices_zipper [1, 3, 5] [2, 3, 4]"
  have lt: "(0::int) < 3" "(1::int) < 3" by simp_all
  have c00: "Compare ?z 0 0 (zstate \<lparr>calls = [LenLeftCall, LenRightCall], iters = 0, zstate = []\<rparr>) = (Less, [])"
    by (simp add: slices_zipper_def numeric_Compare_def)
  have c10: "Compare ?z 1 0 (zstate \<lparr>calls = [], iters = 1, zstate = [OnlyLeft 1]\<rparr>) = (Greater, [OnlyLeft 1])"
    by (simp add: slices_zipper_def numeric_Compare_def)
  have c11: "Compare ?z 1 1 (zstate \<lparr>calls = [], iters = 2, zstate = []\<rparr>) = (Equal, [])"
    by (simp add: slices_zipper_def numeric_Compare_def)
  from ZipWithGaps_dispatch [OF lt(1) lt(1) c00] ZipWithGaps_dispatch [OF lt(2) lt(1) c10]
    ZipWithGaps_dispatch [OF lt(2) lt(2) c11]
  show ?thesis by (simp add: Let_def slices_zipper_def)
qed

text \<open>
  Claim C5. When \<^verbatim>\<open>Compare\<close> returns a value other than \<open>Less\<close>, \<open>Equal\<close> and \<open>Greater\<close> at
  an in-range pair \<open>(i, j)\<close> that the loop has reached, \<^verbatim>\<open>ZipWithGaps\<close> panics in that
  iteration: the value is not taken for \<open>Equal\<close> or any other valid result, no append is
  made for the pair, and every call made before the pair was reached is in the log and
  its effect in the adapter's state.
\<close>

theorem ZipWithGaps_malformed_compare:
  assumes "i < maxLeft" and "j < maxRight" and "Compare z i j (zstate w) = (c, s')"
    and "\<not> valid_ord c"
  shows "body z maxLeft maxRight i j w =
           Panic (BadCompare c) (w\<lparr>calls := calls w @ [CompareCall i j], zstate := s'\<rparr>)
       \<and> loop z maxLeft maxRight i j w =
           Panicked (BadCompare c) (w\<lparr>calls := calls w @ [CompareCall i j], zstate := s'\<rparr>)"
  using assms
  by (simp add: loop.simps body_def do_Compare_def valid_ord_def)

theorem ZipWithGaps_malformed_compare_witness:
  "loop malformed_zipper 3 3 1 1
     \<lparr>calls = [LenLeftCall, LenRightCall, CompareCall 0 0, AddLeftCall 0, CompareCall 1 0,
               AddRightCall 0],
      iters = 2, zstate = [OnlyLeft 1, OnlyRight 2]\<rparr> =
   Panicked (BadCompare (Other 7))
     \<lparr>calls = [LenLeftCall, LenRightCall, CompareCall 0 0, AddLeftCall 0, CompareCall 1 0,
               AddRightCall 0, CompareCall 1 1],
      iters = 2, zstate = [OnlyLeft 1, OnlyRight 2]\<rparr>"
proof -
  let ?w = "\<lparr>calls = [LenLeftCall, LenRightCall, CompareCall 0 0, AddLeftCall 0, CompareCall 1 0,
               AddRightCall 0],
      iters = 2, zstate = [OnlyLeft 1, OnlyRight 2]\<rparr>"
  have lt: "(1::int) < 3" by simp
  have c: "Compare malformed_zipper 1 1 (zstate ?w) = (Other 7, [OnlyLeft 1, OnlyRight 2])"
    by (simp add: malformed_zipper_def slices_zipper_def)
  have nv: "\<not> valid_ord (Other 7)" by (simp add: valid_ord_def)
  from ZipWithGaps_malformed_compare [OF lt lt c nv] show ?thesis by simp
qed

text \<open>
  A whole run on that Zipper reaches this very state: two appends are made, then the
  comparison at \<open>(1, 1)\<close> panics.
\<close>

lemma ZipWithGaps_malformed_run:
  "ZipWithGaps malformed_zipper [] =
   Panicked (BadCompare (Other 7))
     \<lparr>calls = [LenLeftCall, LenRightCall, CompareCall 0 0, AddLeftCall 0, CompareCall 1 0,
               AddRightCall 0, CompareCall 1 1],
      iters = 2, zstate = [OnlyLeft 1, OnlyRight 2]\<rparr>"
  by (simp add: ZipWithGaps_def do_LenLeft_def do_LenRight_def malformed_zipper_def slices_zipper_def
      loop.simps body_def do_Compare_def do_AddLeft_def do_AddRight_def do_AddBoth_def next_iter_def
      numeric_Compare_def)

section \<open>Draining the side that remains\<close>

lemma drain_right:
  assumes "i \<ge> maxLeft"
  shows "\<exists>w'. loop z maxLeft maxRight i j w = Returned i (max j maxRight) w'
              \<and> calls w' = calls w @ map AddRightCall [j..maxRight - 1]
              \<and> iters w' = iters w + nat (maxRight - j)
              \<and> zstate w' = fold (AddRight z) [j..maxRight - 1] (zstate w)"
  using assms
proof (induction z maxLeft maxRight i j w rule: loop.induct)
  case (1 z maxLeft maxRight i j w)
  show ?case
  proof (cases "j < maxRight")
    case False
    with "1.prems" show ?thesis by (simp add: loop_done)
  next
    case True
    have b: "body z maxLeft maxRight i j w = Next i (j + 1) (do_AddRight z j w)"
      using "1.prems" by (simp add: body_def)
    have c: "i < maxLeft \<or> j < maxRight" using True by simp
    from "1.IH" [OF c b "1.prems"] obtain w'
      where "loop z maxLeft maxRight i (j + 1) (next_iter (do_AddRight z j w)) =
               Returned i (max (j + 1) maxRight) w'"
        and "calls w' = calls (next_iter (do_AddRight z j w)) @ map AddRightCall [j + 1..maxRight - 1]"
        and "iters w' = iters (next_iter (do_AddRight z j w)) + nat (maxRight - (j + 1))"
        and "zstate w' = fold (AddRight z) [j + 1..maxRight - 1] (zstate (next_iter (do_AddRight z j w)))"
      by blast
    moreover have "[j..maxRight - 1] = j # [j + 1..maxRight - 1]"
      using True by (simp add: upto_rec1)
    ultimately show ?thesis using True
      by (simp add: loop_step [OF c b] next_iter_def do_AddRight_def)
  qed
qed

lemma drain_left:
  assumes "j \<ge> maxRight"
  shows "\<exists>w'. loop z maxLeft maxRight i j w = Returned (max i maxLeft) j w'
              \<and> calls w' = calls w @ map AddLeftCall [i..maxLeft - 1]
              \<and> iters w' = iters w + nat (maxLeft - i)
              \<and> zstate w' = fold (AddLeft z) [i..maxLeft - 1] (zstate w)"
  using assms
proof (induction z maxLeft maxRight i j w rule: loop.induct)
  case (1 z maxLeft maxRight i j w)
  show ?case
  proof (cases "i < maxLeft")
    case False
    with "1.prems" show ?thesis by (simp add: loop_done)
  next
    case True
    have b: "body z maxLeft maxRight i j w = Next (i + 1) j (do_AddLeft z i w)"
      using "1.prems" True by (simp add: body_def)
    have c: "i < maxLeft \<or> j < maxRight" using True by simp
    from "1.IH" [OF c b "1.prems"] obtain w'
      where "loop z maxLeft maxRight (i + 1) j (next_iter (do_AddLeft z i w)) =
               Returned (max (i + 1) maxLeft) j w'"
        and "calls w' = calls (next_iter (do_AddLeft z i w)) @ map AddLeftCall [i + 1..maxLeft - 1]"
        and "iters w' = iters (next_iter (do_AddLeft z i w)) + nat (maxLeft - (i + 1))"
        and "zstate w' = fold (AddLeft z) [i + 1..maxLeft - 1] (zstate (next_iter (do_AddLeft z i w)))"
      by blast
    moreover have "[i..maxLeft - 1] = i # [i + 1..maxLeft - 1]"
      using True by (simp add: upto_rec1)
    ultimately show ?thesis using True
      by (simp add: loop_step [OF c b] next_iter_def do_AddLeft_def)
  qed
qed

text \<open>
  Claim C6. Once one side is exhausted, the loop makes no further call of \<^verbatim>\<open>Compare\<close>:
  with the left side exhausted it appends every remaining right index by \<^verbatim>\<open>AddRight\<close>,
  and with the right side exhausted every remaining left index by \<^verbatim>\<open>AddLeft\<close>, one per
  iteration and in ascending order, and then returns.
\<close>

theorem ZipWithGaps_drains_exhausted_side:
  "(i \<ge> maxLeft \<longrightarrow>
      (\<exists>w'. loop z maxLeft maxRight i j w = Returned i (max j maxRight) w'
         \<and> calls w' = calls w @ map AddRightCall [j..maxRight - 1]
         \<and> iters w' = iters w + nat (maxRight - j)
         \<and> zstate w' = fold (AddRight z) [j..maxRight - 1] (zstate w)))
   \<and> (j \<ge> maxRight \<longrightarrow>
      (\<exists>w'. loop z maxLeft maxRight i j w = Returned (max i maxLeft) j w'
         \<and> calls w' = calls w @ map AddLeftCall [i..maxLeft - 1]
         \<and> iters w' = iters w + nat (maxLeft - i)
         \<and> zstate w' = fold (AddLeft z) [i..maxLeft - 1] (zstate w)))"
  using drain_right [of maxLeft i z maxRight j w] drain_left [of maxRight j z maxLeft i w]
  by blast

theorem ZipWithGaps_drains_exhausted_side_witness:
  "(\<exists>w'. loop (slices_zipper [1, 3, 5] [2, 3, 4]) 3 3 3 1
            \<lparr>calls = [], iters = 0, zstate = []\<rparr> = Returned 3 3 w'
         \<and> calls w' = [AddRightCall 1, AddRightCall 2]
         \<and> iters w' = 2
         \<and> zstate w' = [OnlyRight 3, OnlyRight 4])
   \<and> (\<exists>w'. loop (slices_zipper [1, 3, 5] [2, 3, 4]) 3 3 2 3
            \<lparr>calls = [], iters = 0, zstate = []\<rparr> = Returned 3 3 w'
         \<and> calls w' = [AddLeftCall 2]
         \<and> iters w' = 1
         \<and> zstate w' = [OnlyLeft 5])"
proof -
  let ?z = "slices_zipper [1, 3, 5] [2, 3, 4]"
  let ?w = "\<lparr>calls = [], iters = 0, zstate = []\<rparr> :: entry list world"
  have u: "[1..(3::int) - 1] = [1, 2]" "[2..(3::int) - 1] = [2]" by (simp_all add: upto_rec1)
  have ge: "(3::int) \<ge> 3" by simp
  from ZipWithGaps_drains_exhausted_side [of 3 3 ?z 3 1 ?w] ZipWithGaps_drains_exhausted_side [of 3 2 ?z 3 3 ?w] u
  show ?thesis by (simp add: slices_zipper_def eval_nat_numeral)
qed

section \<open>Runs with a valid comparator\<close>

lemma valid_inv_step:
  assumes valid: "\<And>i j s. 0 \<le> i \<Longrightarrow> i < m \<Longrightarrow> 0 \<le> j \<Longrightarrow> j < n \<Longrightarrow> valid_ord (fst (Compare z i j s))"
    and inv: "valid_inv m n i j w"
    and cond: "i < m \<or> j < n"
    and b: "body z m n i j w = Next i' j' w'"
  shows "valid_inv m n i' j' (next_iter w')"
proof (cases "i \<ge> m")
  case True
  with inv cond b show ?thesis
    by (auto simp: valid_inv_def body_def do_AddRight_def next_iter_def upto_snoc)
next
  case False
  note iltm = this
  show ?thesis
  proof (cases "j \<ge> n")
    case True
    with inv iltm b show ?thesis
      by (auto simp: valid_inv_def body_def do_AddLeft_def next_iter_def upto_snoc)
  next
    case False
    obtain c s' where cmp: "Compare z i j (zstate w) = (c, s')" by (cases "Compare z i j (zstate w)")
    with inv iltm False b show ?thesis
      by (auto simp: valid_inv_def body_def do_Compare_def do_AddLeft_def do_AddRight_def
            do_AddBoth_def next_iter_def upto_snoc split: if_splits)
  qed
qed

lemma valid_inv_no_panic:
  assumes valid: "\<And>i j s. 0 \<le> i \<Longrightarrow> i < m \<Longrightarrow> 0 \<le> j \<Longrightarrow> j < n \<Longrightarrow> valid_ord (fst (Compare z i j s))"
    and inv: "valid_inv m n i j w"
  shows "body z m n i j w \<noteq> Panic p w'"
proof (cases "i < m \<and> j < n")
  case False
  then show ?thesis by (auto simp: body_def)
next
  case True
  obtain c s' where cmp: "Compare z i j (zstate w) = (c, s')" by (cases "Compare z i j (zstate w)")
  from inv True have "valid_ord (fst (Compare z i j (zstate w)))"
    by (intro valid) (auto simp: valid_inv_def)
  with cmp True show ?thesis
    by (auto simp: body_def do_Compare_def valid_ord_def)
qed

lemma loop_valid_run:
  assumes valid: "\<And>i j s. 0 \<le> i \<Longrightarrow> i < m \<Longrightarrow> 0 \<le> j \<Longrightarrow> j < n \<Longrightarrow> valid_ord (fst (Compare z i j s))"
    and inv: "valid_inv m n i j w"
  shows "\<exists>w'. loop z m n i j w = Returned m n w' \<and> valid_inv m n m n w'"
proof (rule loop_invariant [where I = "valid_inv m n"
      and Q = "\<lambda>r. \<exists>w'. r = Returned m n w' \<and> valid_inv m n m n w'"])
  show "valid_inv m n i j w" by (rule inv)
next
  fix i j w i' j' w'
  assume "valid_inv m n i j (w::'a world)" "i < m \<or> j < n" "body z m n i j w = Next i' j' w'"
  then show "valid_inv m n i' j' (next_iter w')" using valid_inv_step [of m n z] valid by blast
next
  fix i j w p w'
  assume "valid_inv m n i j (w::'a world)" "body z m n i j w = Panic p w'"
  then show "\<exists>w'a. Panicked p w' = Returned m n w'a \<and> valid_inv m n m n w'a"
    using valid_inv_no_panic [of m n z] valid by blast
next
  fix i j w
  assume "valid_inv m n i j (w::'a world)" "\<not> (i < m \<or> j < n)"
  then have "i = m \<and> j = n" by (auto simp: valid_inv_def)
  with \<open>valid_inv m n i j w\<close> show "\<exists>w'. Returned i j w = Returned m n w' \<and> valid_inv m n m n w'"
    by auto
qed

lemma ZipWithGaps_valid_run:
  assumes "LenLeft z s = (m, s1)" and "LenRight z s1 = (n, s2)" and "0 \<le> m" and "0 \<le> n"
    and valid: "\<And>i j s. 0 \<le> i \<Longrightarrow> i < m \<Longrightarrow> 0 \<le> j \<Longrightarrow> j < n \<Longrightarrow> valid_ord (fst (Compare z i j s))"
  shows "\<exists>w'. ZipWithGaps z s = Returned m n w' \<and> valid_inv m n m n w'"
proof -
  have "valid_inv m n 0 0 \<lparr>calls = [LenLeftCall, LenRightCall], iters = 0, zstate = s2\<rparr>"
    using assms(3,4) by (simp add: valid_inv_def)
  from loop_valid_run [of m n z, OF valid this] show ?thesis
    by (simp add: ZipWithGaps_loop [OF assms(1-4)])
qed

lemma slices_valid: "valid_ord (fst (Compare (slices_zipper xs ys) i j s))"
  by (simp add: slices_zipper_def numeric_Compare_def valid_ord_def)

text \<open>The whole run on the slices [1,3,5] and [2,3,4].\<close>

lemma slices_run:
  "ZipWithGaps (slices_zipper [1, 3, 5] [2, 3, 4]) [] =
     Returned 3 3
       \<lparr>calls = [LenLeftCall, LenRightCall, CompareCall 0 0, AddLeftCall 0, CompareCall 1 0,
                 AddRightCall 0, CompareCall 1 1, AddBothCall 1 1, CompareCall 2 2, AddRightCall 2,
                 AddLeftCall 2],
        iters = 5,
        zstate = [OnlyLeft 1, OnlyRight 2, Both 3 3, OnlyRight 4, OnlyLeft 5]\<rparr>"
  by (simp add: ZipWithGaps_def do_LenLeft_def do_LenRight_def slices_zipper_def loop.simps body_def
      do_Compare_def do_AddLeft_def do_AddRight_def do_AddBoth_def next_iter_def numeric_Compare_def)

text \<open>
  Claim C3. In a run of \<^verbatim>\<open>ZipWithGaps\<close> on a Zipper whose lengths \<open>m\<close> and \<open>n\<close> are
  not negative and whose comparator returns only \<open>Less\<close>, \<open>Equal\<close> or \<open>Greater\<close>, the left
  indices passed to \<^verbatim>\<open>AddLeft\<close> and \<^verbatim>\<open>AddBoth\<close> are exactly \<open>0, 1, ..., m - 1\<close>, each
  once and in strictly increasing order, and the right indices passed to \<^verbatim>\<open>AddRight\<close>
  and \<^verbatim>\<open>AddBoth\<close> are exactly \<open>0, 1, ..., n - 1\<close>, each once and in strictly increasing
  order; the run returns. The calls are made on the caller's Zipper: its final state is
  the result of making the logged calls on it, in order.
\<close>

theorem ZipWithGaps_indices_once_increasing:
  assumes "LenLeft z s = (m, s1)" and "LenRight z s1 = (n, s2)" and "0 \<le> m" and "0 \<le> n"
    and "\<And>i j s. 0 \<le> i \<Longrightarrow> i < m \<Longrightarrow> 0 \<le> j \<Longrightarrow> j < n \<Longrightarrow> valid_ord (fst (Compare z i j s))"
  shows "returned (ZipWithGaps z s)
       \<and> left_indices (calls (world_of (ZipWithGaps z s))) = [0..m - 1]
       \<and> right_indices (calls (world_of (ZipWithGaps z s))) = [0..n - 1]
       \<and> sorted_wrt (<) (left_indices (calls (world_of (ZipWithGaps z s))))
       \<and> sorted_wrt (<) (right_indices (calls (world_of (ZipWithGaps z s))))
       \<and> zstate (world_of (ZipWithGaps z s)) = replay z (calls (world_of (ZipWithGaps z s))) s"
proof -
  from ZipWithGaps_valid_run [OF assms] obtain w'
    where r: "ZipWithGaps z s = Returned m n w'" and inv: "valid_inv m n m n w'" by blast
  have "sorted_wrt (<) [0..m - 1]" "sorted_wrt (<) [0..n - 1]"
    by (simp_all add: strict_sorted_iff)
  with r inv ZipWithGaps_replay [of z s] show ?thesis by (simp add: valid_inv_def)
qed

theorem ZipWithGaps_indices_once_increasing_witness:
  "returned (ZipWithGaps (slices_zipper [1, 3, 5] [2, 3, 4]) [])
   \<and> left_indices (calls (world_of (ZipWithGaps (slices_zipper [1, 3, 5] [2, 3, 4]) []))) = [0, 1, 2]
   \<and> right_indices (calls (world_of (ZipWithGaps (slices_zipper [1, 3, 5] [2, 3, 4]) []))) = [0, 1, 2]
   \<and> zstate (world_of (ZipWithGaps (slices_zipper [1, 3, 5] [2, 3, 4]) [])) =
       replay (slices_zipper [1, 3, 5] [2, 3, 4])
         (calls (world_of (ZipWithGaps (slices_zipper [1, 3, 5] [2, 3, 4]) []))) []
   \<and> zstate (world_of (ZipWithGaps (slices_zipper [1, 3, 5] [2, 3, 4]) [])) =
       [OnlyLeft 1, OnlyRight 2, Both 3 3, OnlyRight 4, OnlyLeft 5]"
proof -
  have l: "LenLeft (slices_zipper [1, 3, 5] [2, 3, 4]) [] = (3, [])"
    and r: "LenRight (slices_zipper [1, 3, 5] [2, 3, 4]) [] = (3, [])"
    by (simp_all add: slices_zipper_def)
  have u: "[0..(3::int) - 1] = [0, 1, 2]" by (simp add: upto_rec1)
  have st: "zstate (world_of (ZipWithGaps (slices_zipper [1, 3, 5] [2, 3, 4]) [])) =
       [OnlyLeft 1, OnlyRight 2, Both 3 3, OnlyRight 4, OnlyLeft 5]"
    by (simp add: slices_run)
  from ZipWithGaps_indices_once_increasing [OF l r _ _ slices_valid] u st show ?thesis by simp
qed

text \<open>
  Claim C7. On a Zipper whose lengths \<open>m\<close> and \<open>n\<close> are not negative and whose comparator
  returns only \<open>Less\<close>, \<open>Equal\<close> or \<open>Greater\<close>, \<^verbatim>\<open>ZipWithGaps\<close> terminates and returns, with
  both cursors at their lengths; the number of loop iterations equals the number of
  append calls, which is at least \<open>max m n\<close> and at most \<open>m + n\<close>. The append calls
  counted are made on the caller's Zipper: its final state is the result of making the
  logged calls on it, in order.
\<close>

theorem ZipWithGaps_terminates:
  assumes "LenLeft z s = (m, s1)" and "LenRight z s1 = (n, s2)" and "0 \<le> m" and "0 \<le> n"
    and "\<And>i j s. 0 \<le> i \<Longrightarrow> i < m \<Longrightarrow> 0 \<le> j \<Longrightarrow> j < n \<Longrightarrow> valid_ord (fst (Compare z i j s))"
  shows "\<exists>w'. ZipWithGaps z s = Returned m n w'
            \<and> iters w' = length (appends (calls w'))
            \<and> max m n \<le> int (iters w') \<and> int (iters w') \<le> m + n
            \<and> zstate w' = replay z (calls w') s"
proof -
  from ZipWithGaps_valid_run [OF assms] obtain w'
    where "ZipWithGaps z s = Returned m n w'" and "valid_inv m n m n w'" by blast
  with ZipWithGaps_replay [of z s] show ?thesis by (auto simp: valid_inv_def)
qed

theorem ZipWithGaps_terminates_witness:
  "\<exists>w'. ZipWithGaps (slices_zipper [1, 3, 5] [2, 3, 4]) [] = Returned 3 3 w'
      \<and> iters w' = length (appends (calls w'))
      \<and> 3 \<le> int (iters w') \<and> int (iters w') \<le> 6
      \<and> zstate w' = replay (slices_zipper [1, 3, 5] [2, 3, 4]) (calls w') []
      \<and> zstate w' = [OnlyLeft 1, OnlyRight 2, Both 3 3, OnlyRight 4, OnlyLeft 5]"
proof -
  have l: "LenLeft (slices_zipper [1, 3, 5] [2, 3, 4]) [] = (3, [])"
    and r: "LenRight (slices_zipper [1, 3, 5] [2, 3, 4]) [] = (3, [])"
    by (simp_all add: slices_zipper_def)
  from ZipWithGaps_terminates [OF l r _ _ slices_valid] obtain w'
    where w: "ZipWithGaps (slices_zipper [1, 3, 5] [2, 3, 4]) [] = Returned 3 3 w'"
      "iters w' = length (appends (calls w'))" "max 3 3 \<le> int (iters w')"
      "int (iters w') \<le> 3 + 3"
      "zstate w' = replay (slices_zipper [1, 3, 5] [2, 3, 4]) (calls w') []"
    by auto
  from w(1) have "zstate w' = [OnlyLeft 1, OnlyRight 2, Both 3 3, OnlyRight 4, OnlyLeft 5]"
    by (auto simp: slices_run)
  with w show ?thesis by simp
qed

section \<open>Negative lengths\<close>

text \<open>
  Claim C4. When \<^verbatim>\<open>LenLeft()\<close> or \<^verbatim>\<open>LenRight()\<close> is negative, \<^verbatim>\<open>ZipWithGaps\<close> panics
  at once: the only calls made are the two length queries, so no call of \<^verbatim>\<open>AddLeft\<close>,
  \<^verbatim>\<open>AddRight\<close> or \<^verbatim>\<open>AddBoth\<close> (and none of \<^verbatim>\<open>Compare\<close>) has been issued.
\<close>

theorem ZipWithGaps_negative_length:
  assumes "LenLeft z s = (m, s1)" and "LenRight z s1 = (n, s2)" and "m < 0 \<or> n < 0"
  shows "ZipWithGaps z s =
           Panicked (NegativeLengths m n)
             \<lparr>calls = [LenLeftCall, LenRightCall], iters = 0, zstate = s2\<rparr>
       \<and> appends (calls (world_of (ZipWithGaps z s))) = []"
  using assms by (simp add: ZipWithGaps_def do_LenLeft_def do_LenRight_def)

theorem ZipWithGaps_negative_length_witness:
  "ZipWithGaps (slices_zipper [1, 3, 5] [2, 3, 4]\<lparr>LenLeft := \<lambda>out. (- 1, out)\<rparr>) [] =
     Panicked (NegativeLengths (- 1) 3)
       \<lparr>calls = [LenLeftCall, LenRightCall], iters = 0, zstate = []\<rparr>
   \<and> appends (calls (world_of
         (ZipWithGaps (slices_zipper [1, 3, 5] [2, 3, 4]\<lparr>LenLeft := \<lambda>out. (- 1, out)\<rparr>) []))) = []"
proof -
  have l: "LenLeft (slices_zipper [1, 3, 5] [2, 3, 4]\<lparr>LenLeft := \<lambda>out. (- 1, out)\<rparr>) [] = (- 1, [])"
    and r: "LenRight (slices_zipper [1, 3, 5] [2, 3, 4]\<lparr>LenLeft := \<lambda>out. (- 1, out)\<rparr>) [] = (3, [])"
    by (simp_all add: slices_zipper_def)
  have neg: "(- 1 :: int) < 0 \<or> (3 :: int) < 0" by simp
  from ZipWithGaps_negative_length [OF l r neg] show ?thesis .
qed

section \<open>The example of the spec\<close>

text \<open>
  Claim C8. For left = [1,3,5] and right = [2,3,4] under the numeric order,
  \<^verbatim>\<open>ZipWithGaps\<close> makes exactly the append calls \<^verbatim>\<open>AddLeft(0)\<close>, \<^verbatim>\<open>AddRight(0)\<close>,
  \<^verbatim>\<open>AddBoth(1,1)\<close>, \<^verbatim>\<open>AddRight(2)\<close>, \<^verbatim>\<open>AddLeft(2)\<close>, in that order. The run returns
  after five iterations with both cursors at 3, each append preceded by its comparison
  except the last, and the adapter's output is 1 (left), 2 (right), 3 and 3 (both),
  4 (right), 5 (left).
\<close>

theorem ZipWithGaps_example:
  "ZipWithGaps (slices_zipper [1, 3, 5] [2, 3, 4]) [] =
     Returned 3 3
       \<lparr>calls = [LenLeftCall, LenRightCall, CompareCall 0 0, AddLeftCall 0, CompareCall 1 0,
                 AddRightCall 0, CompareCall 1 1, AddBothCall 1 1, CompareCall 2 2, AddRightCall 2,
                 AddLeftCall 2],
        iters = 5,
        zstate = [OnlyLeft 1, OnlyRight 2, Both 3 3, OnlyRight 4, OnlyLeft 5]\<rparr>
   \<and> appends (calls (world_of (ZipWithGaps (slices_zipper [1, 3, 5] [2, 3, 4]) []))) =
     [AddLeftCall 0, AddRightCall 0, AddBothCall 1 1, AddRightCall 2, AddLeftCall 2]"
  by (simp add: slices_run)

section \<open>Indices and length queries\<close>

lemma range_inv_step:
  assumes inv: "range_inv m n i j w"
    and cond: "i < m \<or> j < n"
    and b: "body z m n i j w = Next i' j' w'"
  shows "range_inv m n i' j' (next_iter w')"
proof -
  obtain c s' where cmp: "Compare z i j (zstate w) = (c, s')" by (cases "Compare z i j (zstate w)")
  with inv cond b show ?thesis
    by (auto simp: range_inv_def body_def do_Compare_def do_AddLeft_def do_AddRight_def
          do_AddBoth_def next_iter_def split: if_splits)
qed

lemma range_inv_panic:
  assumes inv: "range_inv m n i j w"
    and cond: "i < m \<or> j < n"
    and b: "body z m n i j w = Panic p w'"
  shows "range_inv m n i j w'"
proof -
  obtain c s' where cmp: "Compare z i j (zstate w) = (c, s')" by (cases "Compare z i j (zstate w)")
  with inv cond b show ?thesis
    by (auto simp: range_inv_def body_def do_Compare_def split: if_splits)
qed

lemma loop_range:
  assumes inv: "range_inv m n i j w"
  shows "\<exists>i' j'. range_inv m n i' j' (world_of (loop z m n i j w))"
proof (rule loop_invariant [where I = "range_inv m n"
      and Q = "\<lambda>r. \<exists>i' j'. range_inv m n i' j' (world_of r)"])
  show "range_inv m n i j w" by (rule inv)
next
  fix i j w i' j' w'
  assume "range_inv m n i j (w::'a world)" "i < m \<or> j < n" "body z m n i j w = Next i' j' w'"
  then show "range_inv m n i' j' (next_iter w')" by (rule range_inv_step)
next
  fix i j w p w'
  assume "range_inv m n i j (w::'a world)" "i < m \<or> j < n" "body z m n i j w = Panic p w'"
  then have "range_inv m n i j w'" by (rule range_inv_panic)
  then show "\<exists>i' j'. range_inv m n i' j' (world_of (Panicked p w'))" by auto
next
  fix i j w
  assume "range_inv m n i j (w::'a world)"
  then show "\<exists>i' j'. range_inv m n i' j' (world_of (Returned i j w))" by auto
qed

lemma ZipWithGaps_range:
  assumes "LenLeft z s = (m, s1)" and "LenRight z s1 = (n, s2)"
  shows "\<exists>rest. calls (world_of (ZipWithGaps z s)) = LenLeftCall # LenRightCall # rest \<and>
           list_all (in_range m n) rest \<and> filter is_len rest = []"
proof (cases "m < 0 \<or> n < 0")
  case True
  with assms show ?thesis by (simp add: ZipWithGaps_def do_LenLeft_def do_LenRight_def)
next
  case False
  then have nn: "0 \<le> m" "0 \<le> n" by simp_all
  have "range_inv m n 0 0 \<lparr>calls = [LenLeftCall, LenRightCall], iters = 0, zstate = s2\<rparr>"
    by (simp add: range_inv_def)
  from loop_range [OF this, of z] show ?thesis
    by (auto simp: ZipWithGaps_loop [OF assms nn] range_inv_def)
qed







section \<open>Zip\<close>

lemma loop_always_equal:
  assumes eq: "\<And>i j s. 0 \<le> i \<Longrightarrow> i < m \<Longrightarrow> 0 \<le> j \<Longrightarrow> j < n \<Longrightarrow> fst (Compare z i j s) = Equal"
    and "j = i" and "0 \<le> i" and "i \<le> m" and "i \<le> n"
  shows "\<exists>w'. loop z m n i j w = Returned m n w' \<and>
           appends (calls w') =
             appends (calls w) @ map (\<lambda>k. AddBothCall k k) [i..min m n - 1] @
             Zip_spec_tail m n"
  using assms
proof (induction z m n i j w rule: loop.induct)
  case (1 z m n i j w)
  note eq = "1.prems"(1) and ji = "1.prems"(2) and bounds = "1.prems"(3-5)
  show ?case
  proof (cases "i < m \<and> i < n")
    case True
    obtain c s' where cmp: "Compare z i i (zstate w) = (c, s')" by (cases "Compare z i i (zstate w)")
    have "fst (Compare z i i (zstate w)) = Equal" using True bounds by (intro eq) auto
    with cmp have c: "c = Equal" by simp
    have cond: "i < m \<or> j < n" using True by simp
    have b: "body z m n i j w = Next (i + 1) (j + 1) (do_AddBoth z i j (snd (do_Compare z i j w)))"
      using True ji cmp c by (simp add: body_def do_Compare_def)
    let ?w1 = "next_iter (do_AddBoth z i j (snd (do_Compare z i j w)))"
    have "\<exists>w'. loop z m n (i + 1) (j + 1) ?w1 = Returned m n w' \<and>
           appends (calls w') =
             appends (calls ?w1) @ map (\<lambda>k. AddBothCall k k) [i + 1..min m n - 1] @
             Zip_spec_tail m n"
      using True ji bounds by (intro "1.IH" [OF cond b] eq) auto
    then obtain w' where r: "loop z m n (i + 1) (j + 1) ?w1 = Returned m n w'"
      and a: "appends (calls w') =
             appends (calls ?w1) @ map (\<lambda>k. AddBothCall k k) [i + 1..min m n - 1] @
             Zip_spec_tail m n" by blast
    have u: "[i..min m n - 1] = i # [i + 1..min m n - 1]"
      using True by (simp add: upto_rec1)
    have c1: "appends (calls ?w1) = appends (calls w) @ [AddBothCall i i]"
      using cmp ji by (simp add: next_iter_def do_AddBoth_def do_Compare_def)
    have "loop z m n i j w = Returned m n w'"
      using loop_step [OF cond b] r by simp
    moreover have "appends (calls w') =
        appends (calls w) @ map (\<lambda>k. AddBothCall k k) [i..min m n - 1] @ Zip_spec_tail m n"
      using a c1 u by simp
    ultimately show ?thesis by blast
  next
    case False
    show ?thesis
    proof (cases "i \<ge> m")
      case True
      with bounds have im: "i = m" "m \<le> n" by simp_all
      from drain_right [OF True, of z n j w] obtain w'
        where "loop z m n i j w = Returned i (max j n) w'"
          and "calls w' = calls w @ map AddRightCall [j..n - 1]" by blast
      with im ji show ?thesis by (simp add: Zip_spec_tail_def)
    next
      case F2: False
      with False bounds have jn: "i = n" "n < m" by simp_all
      with ji have "j \<ge> n" by simp
      from drain_left [OF this, of z m i w] obtain w'
        where "loop z m n i j w = Returned (max i m) j w'"
          and "calls w' = calls w @ map AddLeftCall [i..m - 1]" by blast
      with jn ji show ?thesis by (simp add: Zip_spec_tail_def)
    qed
  qed
qed

lemma ZipWithGaps_always_equal:
  assumes "LenLeft z s = (m, s1)" and "LenRight z s1 = (n, s2)" and "0 \<le> m" and "0 \<le> n"
    and eq: "\<And>i j s. 0 \<le> i \<Longrightarrow> i < m \<Longrightarrow> 0 \<le> j \<Longrightarrow> j < n \<Longrightarrow> fst (Compare z i j s) = Equal"
  shows "\<exists>w'. ZipWithGaps z s = Returned m n w' \<and> appends (calls w') = Zip_spec_appends m n"
  using loop_always_equal [where m = m and n = n and z = z and i = 0 and j = 0
      and w = "\<lparr>calls = [LenLeftCall, LenRightCall], iters = 0, zstate = s2\<rparr>",
      OF eq _ _ assms(3,4)]
  by (simp add: ZipWithGaps_loop [OF assms(1-4)] Zip_spec_appends_def)

lemma ones_Equal:
  assumes "0 \<le> i" and "i < 2" and "0 \<le> j" and "j < 3"
  shows "fst (Compare (slices_zipper [1, 1] [1, 1, 1]) i j u) = Equal"
proof -
  from assms have "i = 0 \<or> i = 1" "j = 0 \<or> j = 1 \<or> j = 2" by auto
  then show ?thesis by (auto simp: slices_zipper_def numeric_Compare_def)
qed

text \<open>
  Claim C2. For a Zipper with lengths \<open>m \<ge> 0\<close> and \<open>n \<ge> 0\<close>, \<^verbatim>\<open>Zip\<close> returns and makes
  exactly the append calls the spec gives: \<^verbatim>\<open>AddBoth(i, i)\<close> for \<open>i\<close> from 0 up to but
  excluding \<open>min m n\<close>, in increasing order, then the tail of the longer side one index at
  a time. The calls reach the Zipper handed to \<^verbatim>\<open>Zip\<close>: its final state is the result of
  making exactly these append calls on it, in order, from its state after the two length
  queries. They are the append calls of \<^verbatim>\<open>ZipWithGaps\<close> on any Zipper of the same lengths
  whose comparator returns \<open>Equal\<close> at every in-range pair, whose final state is likewise
  the result of making its logged calls on it.
\<close>

theorem Zip_refines_always_equal:
  assumes "LenLeft z s = (m, s1)" and "LenRight z s1 = (n, s2)" and "0 \<le> m" and "0 \<le> n"
  shows "returned (Zip z s)
       \<and> appends (calls (world_of (Zip z s))) = Zip_spec_appends m n
       \<and> zstate (world_of (Zip z s)) = replay z (Zip_spec_appends m n) s2
       \<and> (\<forall>z' t t1 t2.
             LenLeft z' t = (m, t1) \<and> LenRight z' t1 = (n, t2)
               \<and> (\<forall>i j u. 0 \<le> i \<and> i < m \<and> 0 \<le> j \<and> j < n \<longrightarrow> fst (Compare z' i j u) = Equal)
             \<longrightarrow> appends (calls (world_of (ZipWithGaps z' (t::'t)))) =
                   appends (calls (world_of (Zip z s)))
               \<and> zstate (world_of (ZipWithGaps z' t)) =
                   replay z' (calls (world_of (ZipWithGaps z' t))) t)"
proof -
  have l: "LenLeft (alwaysEqualZipper z) s = (m, s1)"
    and r: "LenRight (alwaysEqualZipper z) s1 = (n, s2)"
    using assms(1,2) by (simp_all add: alwaysEqualZipper_def)
  have e: "\<And>i j u. fst (Compare (alwaysEqualZipper z) i j u) = Equal"
    by (simp add: alwaysEqualZipper_def)
  from ZipWithGaps_always_equal [OF l r assms(3,4) e] obtain w'
    where zr: "Zip z s = Returned m n w'" and za: "appends (calls w') = Zip_spec_appends m n"
    by (auto simp: Zip_def)
  from ZipWithGaps_range [OF l r] zr obtain rest
    where c: "calls w' = LenLeftCall # LenRightCall # rest" and nl: "filter is_len rest = []"
    by (auto simp: Zip_def)
  from za c have ar: "appends rest = Zip_spec_appends m n" by simp
  have "zstate w' = replay (alwaysEqualZipper z) (calls w') s"
    using ZipWithGaps_replay [of "alwaysEqualZipper z" s] zr by (simp add: Zip_def)
  also have "\<dots> = replay (alwaysEqualZipper z) rest s2"
    using c l r by simp
  also have "\<dots> = replay z (Zip_spec_appends m n) s2"
    using replay_alwaysEqual [OF nl] ar by simp
  finally have zs: "zstate w' = replay z (Zip_spec_appends m n) s2" .
  have "appends (calls (world_of (ZipWithGaps z' t))) = Zip_spec_appends m n"
    if "LenLeft z' t = (m, t1)" "LenRight z' t1 = (n, t2)"
      "\<forall>i j u. 0 \<le> i \<and> i < m \<and> 0 \<le> j \<and> j < n \<longrightarrow> fst (Compare z' i j u) = Equal"
    for z' :: "'t Zipper" and t t1 t2
    using ZipWithGaps_always_equal [OF that(1,2) assms(3,4)] that(3) by auto
  moreover have "zstate (world_of (ZipWithGaps z' t)) =
      replay z' (calls (world_of (ZipWithGaps z' t))) t" for z' :: "'t Zipper" and t
    by (rule ZipWithGaps_replay)
  ultimately show ?thesis using zr za zs by simp
qed

theorem Zip_refines_always_equal_witness:
  "returned (Zip (slices_zipper [10, 20] [7, 8, 9]) [])
   \<and> appends (calls (world_of (Zip (slices_zipper [10, 20] [7, 8, 9]) []))) =
       [AddBothCall 0 0, AddBothCall 1 1, AddRightCall 2]
   \<and> zstate (world_of (Zip (slices_zipper [10, 20] [7, 8, 9]) [])) =
       [Both 10 7, Both 20 8, OnlyRight 9]
   \<and> appends (calls (world_of (ZipWithGaps (slices_zipper [1, 1] [1, 1, 1]) []))) =
       appends (calls (world_of (Zip (slices_zipper [10, 20] [7, 8, 9]) [])))"
proof -
  have l: "LenLeft (slices_zipper [10, 20] [7, 8, 9]) [] = (2, [])"
    and r: "LenRight (slices_zipper [10, 20] [7, 8, 9]) [] = (3, [])"
    and l': "LenLeft (slices_zipper [1, 1] [1, 1, 1]) [] = (2, [])"
    and r': "LenRight (slices_zipper [1, 1] [1, 1, 1]) [] = (3, [])"
    by (simp_all add: slices_zipper_def)
  have nn: "(0::int) \<le> 2" "(0::int) \<le> 3" by simp_all
  have sp: "Zip_spec_appends 2 3 = [AddBothCall 0 0, AddBothCall 1 1, AddRightCall 2]"
    by (simp add: Zip_spec_appends_def Zip_spec_tail_def upto_rec1)
  have rp: "replay (slices_zipper [10, 20] [7, 8, 9])
        [AddBothCall 0 0, AddBothCall 1 1, AddRightCall 2] [] =
      [Both 10 7, Both 20 8, OnlyRight 9]"
    by (simp add: slices_zipper_def)
  have eq: "\<forall>i j u. 0 \<le> i \<and> i < 2 \<and> 0 \<le> j \<and> j < 3 \<longrightarrow>
      fst (Compare (slices_zipper [1, 1] [1, 1, 1]) i j (u::entry list)) = Equal"
    using ones_Equal by blast
  from Zip_refines_always_equal [OF l r nn, where 't = "entry list"] l' r' eq sp rp
  show ?thesis by simp
qed

end
